theory Spec2Isabelle
  imports Complex_Main "HOL-Library.Word"
begin

unbundle bit_operations_syntax

section \<open>The icon generator \<open>scripts/generate-icons.py\<close>\<close>

text \<open>
  Python integers are \<open>int\<close>. Python floats are read as real numbers: the arithmetic of
  the rasterizer is the exact one, the rounding of IEEE doubles is not part of the model.
  Decimal literals of the source (\<open>0.7\<close>, \<open>0.18\<close>, ...) are the decimal fractions they
  denote. Bytes are \<open>8 word\<close>, a \<open>bytes\<close> object is a list of them.
\<close>

type_synonym byte = "8 word"

type_synonym pixel = "int \<times> int \<times> int \<times> int"

subsection \<open>Constants\<close>

text \<open>Brand colour: emerald \<open>#10b981\<close>.\<close>

definition BG_R :: int where "BG_R = 0x10"
definition BG_G :: int where "BG_G = 0xB9"
definition BG_B :: int where "BG_B = 0x81"

subsection \<open>Coverage primitives\<close>

text \<open>\<open>aa_circle(x, y, cx, cy, r)\<close>: the pixel is an integer pair, the rest are floats.\<close>

definition aa_circle :: "int \<Rightarrow> int \<Rightarrow> real \<Rightarrow> real \<Rightarrow> real \<Rightarrow> real" where
  "aa_circle x y cx cy r =
     (let dist = sqrt ((of_int x - cx)\<^sup>2 + (of_int y - cy)\<^sup>2) in
      if dist < r - 0.7 then 1
      else if dist > r + 0.7 then 0
      else max 0 (min 1 ((r + 0.7 - dist) / 1.4)))"

text \<open>
  The loop \<open>for cx, cy in corners\<close> of \<open>aa_rounded_rect\<close>, with its two early returns;
  a corner that matches but lies deeper than \<open>corner_r - 0.7\<close> falls through to the
  next one, and the exhausted list is the final \<open>return 1.0\<close>.
\<close>

fun corner_loop :: "int \<Rightarrow> int \<Rightarrow> int \<Rightarrow> real \<Rightarrow> real \<Rightarrow> (real \<times> real) list \<Rightarrow> real" where
  "corner_loop x y sz corner_r center [] = 1"
| "corner_loop x y sz corner_r center ((cx, cy) # corners) =
     (let in_cx = ((of_int x < corner_r \<and> cx < center) \<or>
                   (of_int x \<ge> of_int sz - corner_r \<and> cx > center));
          in_cy = ((of_int y < corner_r \<and> cy < center) \<or>
                   (of_int y \<ge> of_int sz - corner_r \<and> cy > center))
      in if in_cx \<and> in_cy then
           (let dist = sqrt ((of_int x - cx)\<^sup>2 + (of_int y - cy)\<^sup>2) in
            if dist > corner_r + 0.7 then 0
            else if dist > corner_r - 0.7 then max 0 (min 1 ((corner_r + 0.7 - dist) / 1.4))
            else corner_loop x y sz corner_r center corners)
         else corner_loop x y sz corner_r center corners)"

definition aa_rounded_rect :: "int \<Rightarrow> int \<Rightarrow> int \<Rightarrow> real \<Rightarrow> real" where
  "aa_rounded_rect x y sz corner_r =
     (let center = of_int sz / 2;
          corners = [(corner_r, corner_r),
                     (of_int sz - corner_r, corner_r),
                     (corner_r, of_int sz - corner_r),
                     (of_int sz - corner_r, of_int sz - corner_r)]
      in corner_loop x y sz corner_r center corners)"

subsection \<open>The glyph\<close>

definition is_in_b :: "real \<Rightarrow> real \<Rightarrow> bool" where
  "is_in_b nx ny =
     (let stem = (0.32 \<le> nx \<and> nx \<le> 0.44 \<and> 0.20 \<le> ny \<and> ny \<le> 0.80);
          top_bar = (0.44 \<le> nx \<and> nx \<le> 0.58 \<and> 0.20 \<le> ny \<and> ny \<le> 0.30);
          mid_bar = (0.44 \<le> nx \<and> nx \<le> 0.60 \<and> 0.46 \<le> ny \<and> ny \<le> 0.54);
          bot_bar = (0.44 \<le> nx \<and> nx \<le> 0.58 \<and> 0.70 \<le> ny \<and> ny \<le> 0.80);
          top_bump = (((nx - 0.55) / 0.14)\<^sup>2 + ((ny - 0.375) / 0.135)\<^sup>2 \<le> 1 \<and> nx \<ge> 0.44);
          bot_bump = (((nx - 0.57) / 0.15)\<^sup>2 + ((ny - 0.625) / 0.135)\<^sup>2 \<le> 1 \<and> nx \<ge> 0.44);
          filled = (stem \<or> top_bar \<or> mid_bar \<or> bot_bar \<or> top_bump \<or> bot_bump)
      in if \<not> filled then False
         else if ((nx - 0.49) / 0.065)\<^sup>2 + ((ny - 0.375) / 0.065)\<^sup>2 \<le> 1 then False
         else if ((nx - 0.51) / 0.070)\<^sup>2 + ((ny - 0.625) / 0.065)\<^sup>2 \<le> 1 then False
         else True)"

subsection \<open>The rasterizer\<close>

text \<open>Python's \<open>int()\<close> on a float truncates towards zero.\<close>

definition py_int :: "real \<Rightarrow> int" where
  "py_int v = (if v \<ge> 0 then \<lfloor>v\<rfloor> else \<lceil>v\<rceil>)"

text \<open>The body of the inner loop of \<open>draw_icon\<close>: the pixel appended for \<open>(x, y)\<close>.\<close>

definition icon_pixel :: "int \<Rightarrow> int \<Rightarrow> int \<Rightarrow> pixel" where
  "icon_pixel sz x y =
     (let center = of_int sz / 2;
          corner_r = of_int sz * 0.18;
          coin_r = of_int sz * 0.35;
          ra = aa_rounded_rect x y sz corner_r
      in if ra \<le> 0 then (0, 0, 0, 0)
         else
           (let alpha = py_int (ra * 255);
                ca = aa_circle x y center center coin_r
            in if ca \<ge> 1 then
                 (let nx = 0.5 + (of_int x - center) / (coin_r * 2);
                      ny = 0.5 + (of_int y - center) / (coin_r * 2)
                  in if is_in_b nx ny then (BG_R, BG_G, BG_B, alpha)
                     else (255, 255, 255, alpha))
               else if ca > 0 then
                 (let r = py_int (of_int BG_R * (1 - ca) + 255 * ca);
                      g = py_int (of_int BG_G * (1 - ca) + 255 * ca);
                      b = py_int (of_int BG_B * (1 - ca) + 255 * ca)
                  in (r, g, b, alpha))
               else (BG_R, BG_G, BG_B, alpha)))"

text \<open>
  The two nested loops, threading the list \<open>pixels\<close>; \<open>range(size)\<close> is \<open>[0..sz - 1]\<close>,
  empty when \<open>sz \<le> 0\<close>.
\<close>

definition draw_row :: "int \<Rightarrow> int \<Rightarrow> pixel list \<Rightarrow> pixel list" where
  "draw_row sz y pixels = foldl (\<lambda>acc x. acc @ [icon_pixel sz x y]) pixels [0..sz - 1]"

definition draw_icon :: "int \<Rightarrow> pixel list" where
  "draw_icon sz = foldl (\<lambda>acc y. draw_row sz y acc) [] [0..sz - 1]"

subsection \<open>\<open>struct.pack\<close>\<close>

text \<open>
  The part of \<open>struct.pack\<close> the script uses: unsigned fields of one, two and four bytes
  (\<open>B\<close>, \<open>H\<close>, \<open>I\<close>) in big-endian (\<open>>\<close>) or little-endian (\<open><\<close>) order without padding.
  A value outside the range of its field raises \<open>struct.error\<close>.
\<close>

datatype error = StructError | IndexError

definition and_then :: "error + 'a \<Rightarrow> ('a \<Rightarrow> error + 'b) \<Rightarrow> error + 'b" where
  "and_then m f = (case m of Inl e \<Rightarrow> Inl e | Inr v \<Rightarrow> f v)"

datatype field = B | H | I

datatype byteorder = Big | Little

fun field_size :: "field \<Rightarrow> nat" where
  "field_size B = 1"
| "field_size H = 2"
| "field_size I = 4"

fun le_bytes :: "nat \<Rightarrow> int \<Rightarrow> byte list" where
  "le_bytes 0 v = []"
| "le_bytes (Suc n) v = word_of_int v # le_bytes n (v div 256)"

definition pack_field :: "byteorder \<Rightarrow> field \<Rightarrow> int \<Rightarrow> error + byte list" where
  "pack_field bo f v =
     (if 0 \<le> v \<and> v < 2 ^ (8 * field_size f)
      then Inr (case bo of Little \<Rightarrow> le_bytes (field_size f) v
                         | Big \<Rightarrow> rev (le_bytes (field_size f) v))
      else Inl StructError)"

fun struct_pack :: "byteorder \<Rightarrow> (field \<times> int) list \<Rightarrow> error + byte list" where
  "struct_pack bo [] = Inr []"
| "struct_pack bo ((f, v) # fs) =
     and_then (pack_field bo f v) (\<lambda>b.
     and_then (struct_pack bo fs) (\<lambda>bs. Inr (b @ bs)))"

subsection \<open>\<open>zlib.crc32\<close>\<close>

text \<open>
  The library function \<open>zlib.crc32\<close>: the CRC-32 of PNG and zlib, bit by bit, with the
  reflected polynomial \<open>0xEDB88320\<close>, initial value and final complement \<open>0xFFFFFFFF\<close>.
\<close>

definition crc_step :: "32 word \<Rightarrow> 32 word" where
  "crc_step c = (if bit c 0 then drop_bit 1 c XOR 0xEDB88320 else drop_bit 1 c)"

definition crc_byte :: "32 word \<Rightarrow> byte \<Rightarrow> 32 word" where
  "crc_byte c b = (crc_step ^^ 8) (c XOR ucast b)"

definition crc32 :: "byte list \<Rightarrow> 32 word" where
  "crc32 bs = foldl crc_byte 0xFFFFFFFF bs XOR 0xFFFFFFFF"

subsection \<open>The PNG encoder\<close>

text \<open>The inner function \<open>chunk\<close> of \<open>make_png\<close>.\<close>

definition chunk :: "byte list \<Rightarrow> byte list \<Rightarrow> error + byte list" where
  "chunk chunk_type data =
     (let c = chunk_type @ data in
      and_then (struct_pack Big [(I, uint (crc32 c) AND 0xFFFFFFFF)]) (\<lambda>crc.
      and_then (struct_pack Big [(I, int (length data))]) (\<lambda>len.
      Inr (len @ c @ crc))))"

definition sig :: "byte list" where
  "sig = [0x89, 0x50, 0x4E, 0x47, 0x0D, 0x0A, 0x1A, 0x0A]"

definition IHDR :: "byte list" where "IHDR = [0x49, 0x48, 0x44, 0x52]"
definition IDAT :: "byte list" where "IDAT = [0x49, 0x44, 0x41, 0x54]"
definition IEND :: "byte list" where "IEND = [0x49, 0x45, 0x4E, 0x44]"

text \<open>\<open>pixels[i]\<close> on a Python list: a negative index counts from the end.\<close>

definition py_index :: "'a list \<Rightarrow> int \<Rightarrow> error + 'a" where
  "py_index xs i =
     (if 0 \<le> i \<and> i < int (length xs) then Inr (xs ! nat i)
      else if i < 0 \<and> - int (length xs) \<le> i then Inr (xs ! nat (int (length xs) + i))
      else Inl IndexError)"

text \<open>
  The inner loop over \<open>x\<close> and the outer loop over \<open>y\<close>, threading \<open>raw\<close>. The format
  \<open>'BBBB'\<close> has no byte-order prefix; on single bytes the native order and alignment are
  those of any other order.
\<close>

fun raw_row :: "pixel list \<Rightarrow> int \<Rightarrow> int \<Rightarrow> int list \<Rightarrow> byte list \<Rightarrow> error + byte list" where
  "raw_row pixels width y [] raw = Inr raw"
| "raw_row pixels width y (x # xs) raw =
     and_then (py_index pixels (y * width + x)) (\<lambda>(r, g, b, a).
     and_then (struct_pack Big [(B, r), (B, g), (B, b), (B, a)]) (\<lambda>p.
     raw_row pixels width y xs (raw @ p)))"

fun raw_rows :: "pixel list \<Rightarrow> int \<Rightarrow> int list \<Rightarrow> byte list \<Rightarrow> error + byte list" where
  "raw_rows pixels width [] raw = Inr raw"
| "raw_rows pixels width (y # ys) raw =
     and_then (raw_row pixels width y [0..width - 1] (raw @ [0x00])) (\<lambda>raw'.
     raw_rows pixels width ys raw')"

text \<open>
  \<open>make_png\<close>; the library function \<open>zlib.compress(_, 9)\<close> is the parameter \<open>compress\<close>.
\<close>

definition make_png :: "(byte list \<Rightarrow> byte list) \<Rightarrow> int \<Rightarrow> int \<Rightarrow> pixel list \<Rightarrow> error + byte list" where
  "make_png compress width height pixels =
     and_then (struct_pack Big [(I, width), (I, height), (B, 8), (B, 6), (B, 0), (B, 0), (B, 0)]) (\<lambda>ihdr.
     and_then (raw_rows pixels width [0..height - 1] []) (\<lambda>raw.
     (let compressed = compress raw in
      and_then (chunk IHDR ihdr) (\<lambda>c1.
      and_then (chunk IDAT compressed) (\<lambda>c2.
      and_then (chunk IEND []) (\<lambda>c3.
      Inr (sig @ c1 @ c2 @ c3)))))))"

subsection \<open>The favicon written by \<open>main\<close>\<close>

definition favicon_ico :: "(byte list \<Rightarrow> byte list) \<Rightarrow> error + byte list" where
  "favicon_ico compress =
     (let pixels = draw_icon 32 in
      and_then (make_png compress 32 32 pixels) (\<lambda>png_data.
      and_then (struct_pack Little [(H, 0), (H, 1), (H, 1)]) (\<lambda>ico_header.
      and_then (struct_pack Little [(B, 32), (B, 32), (B, 0), (B, 0), (H, 1), (H, 32),
                                   (I, int (length png_data)), (I, 22)]) (\<lambda>ico_entry.
      Inr (ico_header @ ico_entry @ png_data)))))"

subsection \<open>A reader of PNG chunks\<close>

text \<open>
  The framing the specification gives for a chunk, read back: a four-byte big-endian
  length \<open>n\<close>, four bytes of type, \<open>n\<close> bytes of data and a four-byte big-endian CRC-32,
  which must be the one recomputed over type and data. The reader returns the chunks
  of a byte stream in order, or \<open>None\<close> when the stream is not a sequence of such frames.
\<close>

definition be_nat :: "byte list \<Rightarrow> nat" where
  "be_nat bs = foldl (\<lambda>a b. a * 256 + unat b) 0 bs"

function read_chunks :: "byte list \<Rightarrow> (byte list \<times> byte list) list option" where
  "read_chunks bs =
     (if bs = [] then Some []
      else if length bs < 12 + be_nat (take 4 bs) then None
      else
        (let n = be_nat (take 4 bs);
             ty = take 4 (drop 4 bs);
             data = take n (drop 8 bs);
             crc = take 4 (drop (8 + n) bs)
         in if be_nat crc \<noteq> unat (crc32 (ty @ data)) then None
            else map_option (\<lambda>cs. (ty, data) # cs) (read_chunks (drop (12 + n) bs))))"
  by pat_completeness auto
termination
  by (relation "measure length") auto

declare read_chunks.simps [simp del]

subsection \<open>Regions of the glyph, as the specification tabulates them\<close>





subsection \<open>Pixels and channels\<close>

text \<open>A channel that \<open>struct.pack('B', _)\<close> accepts, and the two parts of a pixel.\<close>

definition channel_ok :: "int \<Rightarrow> bool" where
  "channel_ok c = (0 \<le> c \<and> c \<le> 255)"

definition pixel_ok :: "pixel \<Rightarrow> bool" where
  "pixel_ok p = (case p of (r, g, b, a) \<Rightarrow> channel_ok r \<and> channel_ok g \<and> channel_ok b \<and> channel_ok a)"


definition alpha :: "pixel \<Rightarrow> int" where
  "alpha p = (case p of (r, g, b, a) \<Rightarrow> a)"

subsection \<open>The geometry of the rounded rectangle, as the specification words it\<close>

text \<open>
  The four corner centers, each inset by the radius from its two edges; the Euclidean
  distance of a pixel from a point; the falloff band of total width 1.4 around a boundary
  of radius \<open>r\<close> (full coverage at distance \<open>\<le> r - 0.7\<close>, none at distance
  \<open>\<ge> r + 0.7\<close>, linear in between).
\<close>

definition corner_centers :: "int \<Rightarrow> real \<Rightarrow> (real \<times> real) list" where
  "corner_centers sz r = [(r, r), (of_int sz - r, r), (r, of_int sz - r), (of_int sz - r, of_int sz - r)]"

definition dist_to :: "int \<Rightarrow> int \<Rightarrow> real \<times> real \<Rightarrow> real" where
  "dist_to x y c = sqrt ((of_int x - fst c)\<^sup>2 + (of_int y - snd c)\<^sup>2)"

definition falloff :: "real \<Rightarrow> real \<Rightarrow> real" where
  "falloff r d = (if d \<le> r - 0.7 then 1 else if d \<ge> r + 0.7 then 0 else (r + 0.7 - d) / 1.4)"

text \<open>
  The corner quadrant in the specification's words: the pixel is nearer to the corner's
  center than to the center of the rectangle along both axes.
\<close>

definition nearer_quadrant :: "int \<Rightarrow> int \<Rightarrow> int \<Rightarrow> real \<times> real \<Rightarrow> bool" where
  "nearer_quadrant sz x y c =
     (\<bar>of_int x - fst c\<bar> < \<bar>of_int x - of_int sz / 2\<bar> \<and> \<bar>of_int y - snd c\<bar> < \<bar>of_int y - of_int sz / 2\<bar>)"

text \<open>
  The corner square: the pixel lies beyond the corner's center, on the side away from the
  center of the rectangle, along both axes (for a corner on the low side \<open>x < cx\<close>, for one
  on the high side \<open>x \<ge> cx\<close>).
\<close>

definition corner_square :: "int \<Rightarrow> int \<Rightarrow> int \<Rightarrow> real \<times> real \<Rightarrow> bool" where
  "corner_square sz x y c =
     ((if fst c < of_int sz / 2 then of_int x < fst c else of_int x \<ge> fst c) \<and>
      (if snd c < of_int sz / 2 then of_int y < snd c else of_int y \<ge> snd c))"

subsection \<open>The byte stream, as the specification words it\<close>

text \<open>
  The raw scanline buffer: for each row a filter byte 0, then four bytes (R, G, B, A) for
  each pixel of the row.
\<close>

definition pixel_bytes :: "pixel \<Rightarrow> byte list" where
  "pixel_bytes p = (case p of (r, g, b, a) \<Rightarrow> [word_of_int r, word_of_int g, word_of_int b, word_of_int a])"

definition scanlines :: "pixel list \<Rightarrow> int \<Rightarrow> int list \<Rightarrow> byte list" where
  "scanlines pixels width ys =
     concat (map (\<lambda>y. 0x00 # concat (map (\<lambda>x. pixel_bytes (pixels ! nat (y * width + x))) [0..width - 1])) ys)"

text \<open>
  A 32-bit number in four bytes, big-endian and little-endian, and the frame of a chunk:
  length of the data, type, data, CRC-32 over type and data.
\<close>

definition be32 :: "nat \<Rightarrow> byte list" where
  "be32 n = [word_of_nat (n div 2 ^ 24), word_of_nat (n div 2 ^ 16), word_of_nat (n div 2 ^ 8), word_of_nat n]"

definition le32 :: "nat \<Rightarrow> byte list" where
  "le32 n = [word_of_nat n, word_of_nat (n div 2 ^ 8), word_of_nat (n div 2 ^ 16), word_of_nat (n div 2 ^ 24)]"

definition frame :: "byte list \<Rightarrow> byte list \<Rightarrow> byte list" where
  "frame ty data = be32 (length data) @ ty @ data @ be32 (unat (crc32 (ty @ data)))"

section \<open>Auxiliary facts\<close>

subsection \<open>The canvas as rows of pixels\<close>

lemma foldl_snoc_map: "foldl (\<lambda>acc x. acc @ [f x]) acc xs = acc @ map f xs"
  by (induction xs arbitrary: acc) simp_all

lemma draw_row_eq: "draw_row sz y pixels = pixels @ map (\<lambda>x. icon_pixel sz x y) [0..sz - 1]"
  by (simp add: draw_row_def foldl_snoc_map)

lemma foldl_rows_concat:
  "foldl (\<lambda>acc y. acc @ g y) acc ys = acc @ concat (map g ys)"
  by (induction ys arbitrary: acc) simp_all

lemma draw_icon_eq:
  "draw_icon sz = concat (map (\<lambda>y. map (\<lambda>x. icon_pixel sz x y) [0..sz - 1]) [0..sz - 1])"
  using foldl_rows_concat [of "\<lambda>y. map (\<lambda>x. icon_pixel sz x y) [0..sz - 1]" "[]" "[0..sz - 1]"]
  by (simp add: draw_icon_def draw_row_eq)

lemma length_upto0: "length [0..n - 1] = nat n"
  by simp

lemma concat_rows_length:
  "length (concat (map (\<lambda>y. map (f y) xs) ys)) = length ys * length xs"
  by (induction ys) simp_all

lemma concat_rows_nth:
  "i < length ys \<Longrightarrow> j < length xs \<Longrightarrow>
   concat (map (\<lambda>y. map (f y) xs) ys) ! (i * length xs + j) = f (ys ! i) (xs ! j)"
proof (induction ys arbitrary: i)
  case Nil
  then show ?case by simp
next
  case (Cons y ys)
  show ?case
  proof (cases i)
    case 0
    with Cons.prems show ?thesis by (simp add: nth_append)
  next
    case (Suc k)
    with Cons.prems have k: "k < length ys" by simp
    have "(Suc k) * length xs + j = length xs + (k * length xs + j)" by simp
    with Suc Cons.IH [OF k Cons.prems(2)] show ?thesis
      by (simp add: nth_append)
  qed
qed

lemma length_draw_icon: "length (draw_icon sz) = nat sz * nat sz"
  by (simp add: draw_icon_eq concat_rows_length)

lemma draw_icon_nth:
  assumes "0 \<le> x" "x < sz" "0 \<le> y" "y < sz"
  shows "draw_icon sz ! nat (y * sz + x) = icon_pixel sz x y"
proof -
  have i: "nat y < length [0..sz - 1]" and j: "nat x < length [0..sz - 1]"
    using assms by simp_all
  have idx: "nat (y * sz + x) = nat y * length [0..sz - 1] + nat x"
    using assms by (simp add: nat_add_distrib nat_mult_distrib)
  have "draw_icon sz ! nat (y * sz + x) = icon_pixel sz ([0..sz - 1] ! nat x) ([0..sz - 1] ! nat y)"
    unfolding draw_icon_eq idx
    by (rule concat_rows_nth [OF i j, of "\<lambda>y x. icon_pixel sz x y"])
  also have "\<dots> = icon_pixel sz x y"
    using assms by simp
  finally show ?thesis .
qed

lemma in_set_draw_icon:
  "p \<in> set (draw_icon sz) \<longleftrightarrow> (\<exists>x y. 0 \<le> x \<and> x < sz \<and> 0 \<le> y \<and> y < sz \<and> p = icon_pixel sz x y)"
  by (force simp: draw_icon_eq)


lemma corner_loop_range:
  "0 \<le> corner_loop x y sz corner_r center corners \<and> corner_loop x y sz corner_r center corners \<le> 1"
  by (induction corners) (auto simp: Let_def)

lemma aa_rounded_rect_range: "0 \<le> aa_rounded_rect x y sz corner_r \<and> aa_rounded_rect x y sz corner_r \<le> 1"
  unfolding aa_rounded_rect_def Let_def by (rule corner_loop_range)

lemma aa_circle_ge_1_iff:
  "aa_circle x y cx cy r \<ge> 1 \<longleftrightarrow> sqrt ((of_int x - cx)\<^sup>2 + (of_int y - cy)\<^sup>2) \<le> r - 0.7"
  by (auto simp: aa_circle_def Let_def min_def max_def field_simps)

lemma py_int_floor: "0 \<le> v \<Longrightarrow> py_int v = \<lfloor>v\<rfloor>"
  by (simp add: py_int_def)

lemma py_int_byte: "0 \<le> v \<Longrightarrow> v \<le> 255 \<Longrightarrow> 0 \<le> py_int v \<and> py_int v \<le> 255"
  by (simp add: py_int_def floor_le_iff le_floor_iff)

lemma blend_byte:
  assumes "0 \<le> c" "c \<le> 255" "0 < ca" "ca < 1"
  shows "0 \<le> py_int (of_int c * (1 - ca) + 255 * ca) \<and> py_int (of_int c * (1 - ca) + 255 * ca) \<le> 255"
proof (rule py_int_byte)
  have c0: "0 \<le> (of_int c :: real)" and c255: "(of_int c :: real) \<le> 255"
    using assms by simp_all
  show "0 \<le> of_int c * (1 - ca) + 255 * ca"
    using c0 assms(3,4) by simp
  have "of_int c * (1 - ca) \<le> 255 * (1 - ca)"
    using c255 assms(4) by (intro mult_right_mono) simp_all
  then show "of_int c * (1 - ca) + 255 * ca \<le> 255"
    by (simp add: algebra_simps)
qed

lemma alpha_byte:
  "0 \<le> py_int (aa_rounded_rect x y sz corner_r * 255) \<and> py_int (aa_rounded_rect x y sz corner_r * 255) \<le> 255"
  using aa_rounded_rect_range [of x y sz corner_r] by (intro py_int_byte) simp_all

lemma icon_pixel_ok: "pixel_ok (icon_pixel sz x y)"
proof -
  have a: "channel_ok (py_int (aa_rounded_rect x y sz (of_int sz * 0.18) * 255))"
    using alpha_byte by (simp add: channel_ok_def)
  have b: "0 < ca \<Longrightarrow> ca < 1 \<Longrightarrow> channel_ok (py_int (of_int c * (1 - ca) + 255 * ca))"
    if "0 \<le> c" "c \<le> 255" for c ca
    using blend_byte [OF that] by (simp add: channel_ok_def)
  show ?thesis
    unfolding icon_pixel_def Let_def pixel_ok_def
    using a b [of BG_R] b [of BG_G] b [of BG_B]
    by (simp add: BG_R_def BG_G_def BG_B_def channel_ok_def not_le)
qed

lemma ramp_eq_falloff:
  "(if d > r + 0.7 then 0 else if d > r - 0.7 then max 0 (min 1 ((r + 0.7 - d) / 1.4)) else 1) = falloff r d"
  by (auto simp: falloff_def min_def max_def field_simps)


lemma rr_in_square:
  assumes r: "2 * r < of_int sz" and c: "c \<in> set (corner_centers sz r)" and q: "corner_square sz x y c"
  shows "aa_rounded_rect x y sz r = falloff r (dist_to x y c)"
  using r c q
  unfolding aa_rounded_rect_def corner_centers_def corner_square_def dist_to_def Let_def
  by (auto simp: ramp_eq_falloff [symmetric] split: if_splits)

lemma rr_outside_squares:
  assumes r: "2 * r < of_int sz" and q: "\<forall>c \<in> set (corner_centers sz r). \<not> corner_square sz x y c"
  shows "aa_rounded_rect x y sz r = 1"
  using r q
  unfolding aa_rounded_rect_def corner_centers_def corner_square_def Let_def
  by (auto split: if_splits)

lemma rr_positive_alpha:
  assumes "0 \<le> x" "x < sz" "0 \<le> y" "y < sz" "aa_rounded_rect x y sz (of_int sz * 0.18) > 0"
  shows "alpha (draw_icon sz ! nat (y * sz + x)) = py_int (aa_rounded_rect x y sz (of_int sz * 0.18) * 255)"
  using assms(5) unfolding draw_icon_nth [OF assms(1-4)]
  by (simp add: icon_pixel_def Let_def alpha_def)

lemma sqrt_1_2_32: "6.0648 < sqrt (36.7952)" "sqrt (36.7952) < 6.067"
  by (rule real_less_rsqrt, simp add: power2_eq_square) (rule real_less_lsqrt, simp_all add: power2_eq_square)

lemma rr_1_2_32: "aa_rounded_rect 1 2 32 (of_int 32 * 0.18) = (6.46 - sqrt 36.7952) / 1.4"
proof -
  have c: "(5.76, 5.76) \<in> set (corner_centers 32 5.76)" by (simp add: corner_centers_def)
  have q: "corner_square 32 1 2 (5.76, 5.76)" by (simp add: corner_square_def)
  have d: "dist_to 1 2 (5.76, 5.76) = sqrt 36.7952"
    by (simp add: dist_to_def power2_eq_square)
  have "aa_rounded_rect 1 2 32 5.76 = falloff 5.76 (sqrt 36.7952)"
    using rr_in_square [OF _ c q] d by simp
  also have "\<dots> = (6.46 - sqrt 36.7952) / 1.4"
    using sqrt_1_2_32 by (simp add: falloff_def)
  finally show ?thesis by simp
qed

lemma rr_16_16_32: "aa_rounded_rect 16 16 32 (of_int 32 * 0.18) = 1"
  by (simp add: aa_rounded_rect_def Let_def)

lemma corner_pixel_outside:
  assumes "10 \<le> sz"
  shows "aa_rounded_rect 0 0 sz (of_int sz * 0.18) = 0"
proof -
  let ?r = "of_int sz * 0.18 :: real"
  have r: "1.8 \<le> ?r" using assms by simp
  have c: "(?r, ?r) \<in> set (corner_centers sz ?r)" by (simp add: corner_centers_def)
  have lt: "2 * ?r < of_int sz" using assms by simp
  have q: "corner_square sz 0 0 (?r, ?r)" using r lt by (simp add: corner_square_def)
  have "(?r + 0.7)\<^sup>2 < 2 * ?r\<^sup>2"
  proof -
    have "0 \<le> (?r - 1.8) * (?r + 0.4)" using r by simp
    then show ?thesis by (simp add: power2_eq_square algebra_simps)
  qed
  then have "?r + 0.7 < sqrt (2 * ?r\<^sup>2)" by (rule real_less_rsqrt)
  then have "?r + 0.7 \<le> dist_to 0 0 (?r, ?r)" by (simp add: dist_to_def)
  then have "falloff ?r (dist_to 0 0 (?r, ?r)) = 0" by (simp add: falloff_def)
  with rr_in_square [OF lt c q] show ?thesis by simp
qed

lemma abs_le_dist:
  "\<bar>a\<bar> \<le> sqrt (a\<^sup>2 + b\<^sup>2)" "\<bar>b\<bar> \<le> sqrt (a\<^sup>2 + b\<^sup>2)" for a b :: real
  by (rule real_le_rsqrt, simp)+



subsection \<open>Packing pixels\<close>

lemma pack_B4:
  assumes "pixel_ok (r, g, b, a)"
  shows "struct_pack Big [(B, r), (B, g), (B, b), (B, a)] = Inr (pixel_bytes (r, g, b, a))"
  using assms by (simp add: pixel_ok_def channel_ok_def pack_field_def and_then_def pixel_bytes_def)

lemma py_index_in_range:
  "0 \<le> i \<Longrightarrow> nat i < length xs \<Longrightarrow> py_index xs i = Inr (xs ! nat i)"
  by (simp add: py_index_def)

lemma raw_row_ok:
  assumes "\<forall>p \<in> set pixels. pixel_ok p"
    and "\<forall>x \<in> set xs. 0 \<le> y * width + x \<and> nat (y * width + x) < length pixels"
  shows "raw_row pixels width y xs raw =
         Inr (raw @ concat (map (\<lambda>x. pixel_bytes (pixels ! nat (y * width + x))) xs))"
  using assms(2)
proof (induction xs arbitrary: raw)
  case Nil
  then show ?case by simp
next
  case (Cons x xs)
  let ?p = "pixels ! nat (y * width + x)"
  have i: "0 \<le> y * width + x" "nat (y * width + x) < length pixels"
    using Cons.prems by simp_all
  have ok: "pixel_ok ?p" using assms(1) i(2) by simp
  obtain r g b a where p: "?p = (r, g, b, a)" by (cases ?p) auto
  have "raw_row pixels width y (x # xs) raw = raw_row pixels width y xs (raw @ pixel_bytes ?p)"
    using py_index_in_range [OF i] pack_B4 [of r g b a] ok
    by (simp add: and_then_def p)
  also have "\<dots> = Inr ((raw @ pixel_bytes ?p) @ concat (map (\<lambda>x. pixel_bytes (pixels ! nat (y * width + x))) xs))"
    using Cons.prems by (intro Cons.IH) simp
  finally show ?case by simp
qed

lemma raw_rows_ok:
  assumes "\<forall>p \<in> set pixels. pixel_ok p"
    and "\<forall>y \<in> set ys. \<forall>x \<in> set [0..width - 1]. 0 \<le> y * width + x \<and> nat (y * width + x) < length pixels"
  shows "raw_rows pixels width ys raw = Inr (raw @ scanlines pixels width ys)"
  using assms(2)
proof (induction ys arbitrary: raw)
  case Nil
  then show ?case by (simp add: scanlines_def)
next
  case (Cons y ys)
  have row: "raw_row pixels width y [0..width - 1] (raw @ [0x00]) =
        Inr ((raw @ [0x00]) @ concat (map (\<lambda>x. pixel_bytes (pixels ! nat (y * width + x))) [0..width - 1]))"
    using Cons.prems by (intro raw_row_ok [OF assms(1)]) simp
  have rest: "raw_rows pixels width ys r = Inr (r @ scanlines pixels width ys)" for r
    using Cons.prems by (intro Cons.IH) simp
  show ?case
    by (simp add: row rest and_then_def scanlines_def)
qed

lemma index_in_canvas:
  assumes "0 \<le> x" "x < width" "0 \<le> y" "y < height" "length pixels = nat (width * height)"
  shows "0 \<le> y * width + x \<and> nat (y * width + x) < length pixels"
proof -
  have "y * width \<le> (height - 1) * width"
    using assms by (intro mult_right_mono) simp_all
  then have "y * width + x < width * height"
    using assms(2) by (simp add: algebra_simps)
  moreover have "0 \<le> y * width" using assms by simp
  ultimately show ?thesis using assms(1,5) by simp
qed

lemma raw_rows_canvas:
  assumes "\<forall>p \<in> set pixels. pixel_ok p" "length pixels = nat (width * height)"
  shows "raw_rows pixels width [0..height - 1] [] = Inr (scanlines pixels width [0..height - 1])"
  using raw_rows_ok [OF assms(1), of "[0..height - 1]" width "[]"] index_in_canvas [OF _ _ _ _ assms(2)]
  by simp

lemma draw_icon_pixels_ok: "\<forall>p \<in> set (draw_icon sz). pixel_ok p"
  by (auto simp: in_set_draw_icon icon_pixel_ok)

subsection \<open>Numbers in bytes, chunks and their reader\<close>

lemma length_le_bytes: "length (le_bytes n v) = n"
  by (induction n arbitrary: v) simp_all

lemma be_nat_snoc: "be_nat (bs @ [b]) = be_nat bs * 256 + unat b"
  by (simp add: be_nat_def)

lemma unat_byte_of_int: "0 \<le> v \<Longrightarrow> unat (word_of_int v :: byte) = nat (v mod 256)"
  by (simp add: unat_eq_nat_uint uint_word_of_int take_bit_eq_mod)

lemma be_nat_rev_le_bytes:
  "0 \<le> v \<Longrightarrow> be_nat (rev (le_bytes n v)) = nat (v mod 256 ^ n)"
proof (induction n arbitrary: v)
  case 0
  then show ?case by (simp add: be_nat_def)
next
  case (Suc n)
  have d: "0 \<le> v div 256" using Suc.prems by simp
  have "v mod (256 * 256 ^ n) = 256 * ((v div 256) mod 256 ^ n) + v mod 256"
    by (rule zmod_zmult2_eq) simp
  then have "v mod 256 ^ Suc n = 256 * ((v div 256) mod 256 ^ n) + v mod 256"
    by simp
  moreover have "0 \<le> (v div 256) mod 256 ^ n" "0 \<le> v mod 256" by simp_all
  ultimately have "nat (v mod 256 ^ Suc n) = nat ((v div 256) mod 256 ^ n) * 256 + nat (v mod 256)"
    by (simp add: nat_add_distrib nat_mult_distrib)
  then show ?case
    using Suc.IH [OF d] Suc.prems by (simp add: be_nat_snoc unat_byte_of_int)
qed

lemma le_bytes4:
  "le_bytes 4 v = [word_of_int v, word_of_int (v div 256), word_of_int (v div 256 div 256),
                   word_of_int (v div 256 div 256 div 256)]"
  by (simp add: eval_nat_numeral)

lemma rev_le_bytes4: "rev (le_bytes 4 (int n)) = be32 n"
proof -
  have "int n div 256 = int (n div 2 ^ 8)"
       "int n div 256 div 256 = int (n div 2 ^ 16)"
       "int n div 256 div 256 div 256 = int (n div 2 ^ 24)"
    by (simp_all add: zdiv_int div_mult2_eq)
  then show ?thesis
    by (simp add: le_bytes4 be32_def)
qed

lemma pack_field_I:
  "pack_field Big I v = (if 0 \<le> v \<and> v < 2 ^ 32 then Inr (be32 (nat v)) else Inl StructError)"
proof (cases "0 \<le> v \<and> v < 2 ^ 32")
  case True
  then have "rev (le_bytes 4 v) = be32 (nat v)"
    using rev_le_bytes4 [of "nat v"] by simp
  with True show ?thesis by (simp add: pack_field_def)
next
  case False
  then show ?thesis by (auto simp: pack_field_def)
qed

lemma pack_I_be:
  "struct_pack Big [(I, v)] = (if 0 \<le> v \<and> v < 2 ^ 32 then Inr (be32 (nat v)) else Inl StructError)"
  by (simp add: pack_field_I and_then_def)

lemma uint_and_mask32: "uint (w :: 32 word) AND 0xFFFFFFFF = uint w"
proof -
  have "uint w AND mask 32 = uint w"
    by (simp add: bintr_uint flip: take_bit_eq_mask)
  then show ?thesis by (simp add: mask_eq_exp_minus_1)
qed

lemma chunk_eq:
  "chunk ty data = (if length data < 2 ^ 32 then Inr (frame ty data) else Inl StructError)"
proof -
  have u: "uint (crc32 (ty @ data)) < 2 ^ 32"
    using uint_bounded [of "crc32 (ty @ data)"] by simp
  have n: "nat (uint (crc32 (ty @ data))) = unat (crc32 (ty @ data))" by simp
  show ?thesis
    using u unfolding chunk_def Let_def uint_and_mask32 pack_I_be and_then_def frame_def
    by (simp add: n)
qed

lemma length_be32: "length (be32 n) = 4"
  by (simp add: be32_def)

lemma be_nat_be32: "n < 2 ^ 32 \<Longrightarrow> be_nat (be32 n) = n"
  using be_nat_rev_le_bytes [of "int n" 4] by (simp add: rev_le_bytes4 nat_mod_distrib)

lemma frame_parts:
  fixes l ty data c rest :: "'a list"
  assumes "length l = 4" "length ty = 4" "length c = 4"
  defines "bs \<equiv> l @ ty @ data @ c @ rest"
  shows "take 4 bs = l" "take 4 (drop 4 bs) = ty" "take (length data) (drop 8 bs) = data"
    "take 4 (drop (8 + length data) bs) = c" "drop (12 + length data) bs = rest"
    "length bs = 12 + length data + length rest"
  using assms(1-3) by (simp_all add: bs_def)

lemma read_chunks_frame:
  assumes "length ty = 4" "length data < 2 ^ 32"
  shows "read_chunks (frame ty data @ rest) = map_option (\<lambda>cs. (ty, data) # cs) (read_chunks rest)"
proof -
  let ?n = "length data" and ?c = "unat (crc32 (ty @ data))"
  define bs where "bs = frame ty data @ rest"
  have c: "?c < 2 ^ 32" using unsigned_less [of "crc32 (ty @ data)", where ?'a = nat] by simp
  have bs: "bs = be32 ?n @ ty @ data @ be32 ?c @ rest" by (simp add: bs_def frame_def)
  note parts = frame_parts [where l = "be32 ?n" and c = "be32 ?c" and data = data and rest = rest,
      OF length_be32 assms(1) length_be32, folded bs]
  have n: "be_nat (be32 ?n) = ?n"
    by (rule be_nat_be32 [OF assms(2)])
  have ne: "bs \<noteq> []" using parts(6) by auto
  have "read_chunks bs = map_option (\<lambda>cs. (ty, data) # cs) (read_chunks rest)"
    apply (subst read_chunks.simps)
    unfolding Let_def parts(1) n parts
    using ne by (simp add: be_nat_be32 [OF c])
  then show ?thesis by (simp add: bs_def)
qed

lemma read_chunks_Nil: "read_chunks [] = Some []"
  by (simp add: read_chunks.simps)

lemma pack_ihdr:
  "struct_pack Big [(I, w), (I, h), (B, 8), (B, 6), (B, 0), (B, 0), (B, 0)] =
     (if 0 \<le> w \<and> w < 2 ^ 32 \<and> 0 \<le> h \<and> h < 2 ^ 32
      then Inr (be32 (nat w) @ be32 (nat h) @ [8, 6, 0, 0, 0]) else Inl StructError)"
proof -
  have p: "struct_pack Big ((I, v) # fs) =
           (if 0 \<le> v \<and> v < 2 ^ 32
            then and_then (struct_pack Big fs) (\<lambda>bs. Inr (be32 (nat v) @ bs)) else Inl StructError)" for v fs
    by (simp add: pack_field_I and_then_def)
  show ?thesis
    unfolding p by (simp add: pack_field_def and_then_def)
qed

lemma make_png_Inr:
  assumes "make_png compress width height pixels = Inr bs"
  shows "\<exists>raw. raw_rows pixels width [0..height - 1] [] = Inr raw \<and>
           0 \<le> width \<and> width < 2 ^ 32 \<and> 0 \<le> height \<and> height < 2 ^ 32 \<and>
           length (compress raw) < 2 ^ 32 \<and>
           bs = sig @ frame IHDR (be32 (nat width) @ be32 (nat height) @ [8, 6, 0, 0, 0]) @
                frame IDAT (compress raw) @ frame IEND []"
  using assms unfolding make_png_def pack_ihdr chunk_eq Let_def and_then_def
  by (auto split: if_splits sum.splits)

lemma make_png_total:
  assumes "0 \<le> width" "width < 2 ^ 32" "0 \<le> height" "height < 2 ^ 32"
    and "\<forall>p \<in> set pixels. pixel_ok p" "length pixels = nat (width * height)"
    and "\<forall>raw. length (compress raw) < 2 ^ 32"
  shows "make_png compress width height pixels =
         Inr (sig @ frame IHDR (be32 (nat width) @ be32 (nat height) @ [8, 6, 0, 0, 0]) @
              frame IDAT (compress (scanlines pixels width [0..height - 1])) @ frame IEND [])"
  using assms(1-4,7) unfolding make_png_def pack_ihdr chunk_eq Let_def and_then_def
    raw_rows_canvas [OF assms(5,6)]
  by (simp add: length_be32)

lemma read_three_frames:
  assumes "length a < 2 ^ 32" "length b < 2 ^ 32"
  shows "read_chunks (frame IHDR a @ frame IDAT b @ frame IEND []) =
         Some [(IHDR, a), (IDAT, b), (IEND, [])]"
proof -
  have "read_chunks (frame IEND [] @ []) = Some [(IEND, [])]"
    by (subst read_chunks_frame) (simp_all add: IEND_def read_chunks_Nil)
  then have "read_chunks (frame IDAT b @ frame IEND []) = Some [(IDAT, b), (IEND, [])]"
    using assms(2) by (subst read_chunks_frame) (simp_all add: IDAT_def)
  then show ?thesis
    using assms(1) by (subst read_chunks_frame) (simp_all add: IHDR_def)
qed

lemma crc_byte_unroll:
  "crc_byte c b = crc_step (crc_step (crc_step (crc_step (crc_step (crc_step (crc_step (crc_step (c XOR ucast b))))))))"
  by (simp add: crc_byte_def eval_nat_numeral)

lemma crc32_IEND: "crc32 IEND = 0xAE426082"
  by (simp add: crc32_def IEND_def crc_byte_unroll crc_step_def)

lemma frame_IEND: "frame IEND [] = [0, 0, 0, 0, 0x49, 0x45, 0x4E, 0x44, 0xAE, 0x42, 0x60, 0x82]"
  by (simp add: frame_def crc32_IEND be32_def) (simp add: IEND_def)

lemma make_png_1x1:
  "make_png (\<lambda>raw. raw) 1 1 [(0x10, 0xB9, 0x81, 255)] =
     Inr (sig @ frame IHDR [0, 0, 0, 1, 0, 0, 0, 1, 8, 6, 0, 0, 0] @
          frame IDAT [0, 0x10, 0xB9, 0x81, 0xFF] @ frame IEND [])"
proof -
  have ok: "pixel_ok (0x10, 0xB9, 0x81, 255)" by (simp add: pixel_ok_def channel_ok_def)
  have "raw_rows [(0x10, 0xB9, 0x81, 255)] 1 [0..1 - 1] [] =
        Inr (scanlines [(0x10, 0xB9, 0x81, 255)] 1 [0..1 - 1])"
    by (rule raw_rows_canvas) (simp_all add: ok)
  moreover have "scanlines [(0x10, 0xB9, 0x81, 255)] 1 [0..1 - 1] = [0, 0x10, 0xB9, 0x81, 0xFF]"
    by (simp add: scanlines_def pixel_bytes_def)
  ultimately have raw: "raw_rows [(0x10, 0xB9, 0x81, 255)] 1 [0..1 - 1] [] = Inr [0, 0x10, 0xB9, 0x81, 0xFF]"
    by simp
  show ?thesis
    unfolding make_png_def pack_ihdr raw chunk_eq Let_def and_then_def
    by (simp add: be32_def)
qed

subsection \<open>The fields of the ICO directory\<close>

lemma le_bytes2: "le_bytes 2 v = [word_of_int v, word_of_int (v div 256)]"
  by (simp add: eval_nat_numeral)

lemma le_bytes4_nat: "le_bytes 4 (int n) = le32 n"
  using rev_le_bytes4 [of n] by (simp add: le_bytes4 be32_def le32_def)

lemma pack_ico_header: "struct_pack Little [(H, 0), (H, 1), (H, 1)] = Inr [0, 0, 1, 0, 1, 0]"
  by (simp add: pack_field_def and_then_def le_bytes2)

lemma pack_ico_entry:
  "struct_pack Little [(B, 32), (B, 32), (B, 0), (B, 0), (H, 1), (H, 32), (I, int n), (I, 22)] =
     (if n < 2 ^ 32 then Inr ([32, 32, 0, 0, 1, 0, 32, 0] @ le32 n @ [22, 0, 0, 0])
      else Inl StructError)"
  by (simp add: pack_field_def and_then_def le_bytes2 le_bytes4_nat) (simp add: le_bytes4)

lemma length_frame: "length (frame ty data) = 8 + length ty + length data"
  by (simp add: frame_def length_be32)

section \<open>The claims\<close>

subsection \<open>Alpha of a pixel inside the mask\<close>

text \<open>
  C1, as the code has it. For every pixel \<open>(x, y)\<close> of \<open>draw_icon sz\<close> whose rounded-rect
  coverage \<open>ra\<close> is strictly positive, the alpha channel is \<open>ra * 255\<close> truncated to an
  integer (\<open>int(ra * 255)\<close>, the floor since \<open>ra > 0\<close>), not rounded to the nearest one.
\<close>

theorem alpha_is_floor:
  assumes "0 \<le> x" "x < sz" "0 \<le> y" "y < sz" "aa_rounded_rect x y sz (of_int sz * 0.18) > 0"
  shows "alpha (draw_icon sz ! nat (y * sz + x)) = \<lfloor>aa_rounded_rect x y sz (of_int sz * 0.18) * 255\<rfloor>"
  using rr_positive_alpha [OF assms] assms(5) by (simp add: py_int_floor)

theorem alpha_is_floor_witness:
  "(0::int) \<le> 16 \<and> (16::int) < 32 \<and> aa_rounded_rect 16 16 32 (of_int 32 * 0.18) > 0 \<and>
   alpha (draw_icon 32 ! nat (16 * 32 + 16)) = 255"
  using alpha_is_floor [of 16 32 16, unfolded rr_16_16_32] unfolding rr_16_16_32 by simp

text \<open>
  Pixel \<open>(1, 2)\<close> of the 32-pixel icon has \<open>ra * 255\<close> between 71.5 and 72: its alpha is 71,
  the nearest integer is 72.
\<close>

theorem alpha_not_rounded_32:
  "aa_rounded_rect 1 2 32 (of_int 32 * 0.18) > 0 \<and>
   alpha (draw_icon 32 ! nat (2 * 32 + 1)) = 71 \<and>
   round (aa_rounded_rect 1 2 32 (of_int 32 * 0.18) * 255) = 72 \<and>
   alpha (draw_icon 32 ! nat (2 * 32 + 1)) \<noteq> round (aa_rounded_rect 1 2 32 (of_int 32 * 0.18) * 255)"
proof -
  let ?ra = "aa_rounded_rect 1 2 32 (of_int 32 * 0.18)"
  have lo: "71.5 < ?ra * 255" and hi: "?ra * 255 < 72"
    unfolding rr_1_2_32 using sqrt_1_2_32 by simp_all
  have pos: "0 < ?ra" using lo by simp
  have "alpha (draw_icon 32 ! nat (2 * 32 + 1)) = \<lfloor>?ra * 255\<rfloor>"
    using rr_positive_alpha [of 1 32 2] pos by (simp add: py_int_floor)
  moreover have "\<lfloor>?ra * 255\<rfloor> = 71"
    using lo hi by (simp add: floor_eq_iff)
  moreover have "round (?ra * 255) = 72"
    unfolding round_def using lo hi by (simp add: floor_eq_iff)
  ultimately show ?thesis using pos by simp
qed

subsection \<open>The glyph region\<close>



subsection \<open>Colour of a pixel inside the mask\<close>



subsection \<open>The corner pixel\<close>

text \<open>
  C8. For each generated size (512, 192, 180 and 32) the coverage
  \<open>aa_rounded_rect 0 0 sz (sz * 0.18)\<close> is not positive, and the pixel at \<open>(0, 0)\<close> of
  \<open>draw_icon sz\<close> is the transparent pixel \<open>(0, 0, 0, 0)\<close>.
\<close>

theorem corner_pixel_transparent:
  assumes "sz \<in> {512, 192, 180, 32}"
  shows "aa_rounded_rect 0 0 sz (of_int sz * 0.18) \<le> 0 \<and> draw_icon sz ! 0 = (0, 0, 0, 0)"
proof -
  have sz: "10 \<le> sz" using assms by auto
  have "draw_icon sz ! nat (0 * sz + 0) = icon_pixel sz 0 0"
    using sz by (intro draw_icon_nth) simp_all
  then show ?thesis
    using corner_pixel_outside [OF sz] by (simp add: icon_pixel_def Let_def)
qed

theorem corner_pixel_transparent_witness:
  "(32::int) \<in> {512, 192, 180, 32} \<and> aa_rounded_rect 0 0 32 (of_int 32 * 0.18) \<le> 0 \<and>
   draw_icon 32 ! 0 = (0, 0, 0, 0)"
  using corner_pixel_transparent [of 32] by simp

subsection \<open>The coordinates passed to the glyph test\<close>

text \<open>
  C9. For every \<open>sz > 0\<close> and every pixel of \<open>draw_icon sz\<close> for which the branch
  \<open>ca \<ge> 1\<close> is taken, the distance from the canvas center is at most \<open>coin_r - 0.7\<close>, and
  the normalized coordinates \<open>nx\<close> and \<open>ny\<close> passed to \<open>is_in_b\<close> lie strictly between
  0 and 1.
\<close>

theorem glyph_coordinates_in_unit_square:
  assumes "0 < sz" "0 \<le> x" "x < sz" "0 \<le> y" "y < sz"
  defines "center \<equiv> of_int sz / 2" and "coin_r \<equiv> of_int sz * 0.35"
  assumes ca: "aa_circle x y center center coin_r \<ge> 1"
  shows "sqrt ((of_int x - center)\<^sup>2 + (of_int y - center)\<^sup>2) \<le> coin_r - 0.7 \<and>
         0 < 0.5 + (of_int x - center) / (coin_r * 2) \<and> 0.5 + (of_int x - center) / (coin_r * 2) < 1 \<and>
         0 < 0.5 + (of_int y - center) / (coin_r * 2) \<and> 0.5 + (of_int y - center) / (coin_r * 2) < 1"
proof -
  let ?a = "of_int x - center" and ?b = "of_int y - center"
  have d: "sqrt (?a\<^sup>2 + ?b\<^sup>2) \<le> coin_r - 0.7"
    using ca by (simp add: aa_circle_ge_1_iff)
  have pos: "0 < coin_r" using assms(1) by (simp add: coin_r_def)
  have a: "\<bar>?a\<bar> < coin_r" and b: "\<bar>?b\<bar> < coin_r"
    using abs_le_dist(1) [of ?a ?b] abs_le_dist(2) [of ?b ?a] d by linarith+
  have a': "?a < coin_r" "- coin_r < ?a" and b': "?b < coin_r" "- coin_r < ?b"
    using a b by (simp_all add: abs_less_iff)
  have "?a / (coin_r * 2) < 1 / 2" "- (1 / 2) < ?a / (coin_r * 2)"
       "?b / (coin_r * 2) < 1 / 2" "- (1 / 2) < ?b / (coin_r * 2)"
    using a' b' pos by (simp_all add: pos_divide_less_eq pos_less_divide_eq)
  with d show ?thesis by linarith
qed

theorem glyph_coordinates_in_unit_square_witness:
  "(0::int) < 32 \<and> (0::int) \<le> 16 \<and> (16::int) < 32 \<and>
   aa_circle 16 16 (of_int 32 / 2) (of_int 32 / 2) (of_int 32 * 0.35) \<ge> 1 \<and>
   (0::real) < 0.5 + (of_int 16 - of_int 32 / 2) / (of_int 32 * 0.35 * 2) \<and>
   (0.5::real) + (of_int 16 - of_int 32 / 2) / (of_int 32 * 0.35 * 2) < 1"
proof -
  have ca: "aa_circle 16 16 (of_int 32 / 2) (of_int 32 / 2) (of_int 32 * 0.35) \<ge> 1"
    by (simp add: aa_circle_def)
  show ?thesis
    using glyph_coordinates_in_unit_square [of 32 16 16, OF _ _ _ _ _ ca] ca by simp
qed

subsection \<open>The rounded rectangle\<close>

text \<open>
  C2, as the code has it. For every integer pixel \<open>(x, y)\<close>, \<open>sz > 0\<close> and corner radius
  with \<open>0 < corner_radius < sz / 2\<close>, the coverage of the rounded rectangle is the circular
  falloff against the corner's arc for any pixel in one of the four corner squares (the
  pixel lies beyond that corner's center along both axes: \<open>x < corner_radius\<close> or
  \<open>x \<ge> sz - corner_radius\<close>, and likewise \<open>y\<close>), and exactly 1 for every other pixel, each
  corner center being inset by the radius from its two edges.
\<close>

theorem rounded_rect_corner_squares:
  assumes "0 < sz" "0 < corner_radius" "corner_radius < of_int sz / 2"
  shows "(\<forall>c \<in> set (corner_centers sz corner_radius).
            corner_square sz x y c \<longrightarrow>
            aa_rounded_rect x y sz corner_radius = falloff corner_radius (dist_to x y c)) \<and>
         ((\<forall>c \<in> set (corner_centers sz corner_radius). \<not> corner_square sz x y c) \<longrightarrow>
            aa_rounded_rect x y sz corner_radius = 1)"
proof -
  have r: "2 * corner_radius < of_int sz" using assms(3) by simp
  show ?thesis
    using rr_in_square [OF r] rr_outside_squares [OF r] by blast
qed

theorem rounded_rect_corner_squares_witness:
  "(0::int) < 32 \<and> (0::real) < 5.76 \<and> (5.76::real) < of_int 32 / 2 \<and>
   (5.76, 5.76) \<in> set (corner_centers 32 5.76) \<and> corner_square 32 1 2 (5.76, 5.76) \<and>
   aa_rounded_rect 1 2 32 5.76 = falloff 5.76 (dist_to 1 2 (5.76, 5.76)) \<and>
   corner_centers 32 5.76 = [(5.76, 5.76), (26.24, 5.76), (5.76, 26.24), (26.24, 26.24)] \<and>
   \<not> corner_square 32 16 16 (5.76, 5.76) \<and> \<not> corner_square 32 16 16 (26.24, 5.76) \<and>
   \<not> corner_square 32 16 16 (5.76, 26.24) \<and> \<not> corner_square 32 16 16 (26.24, 26.24) \<and>
   aa_rounded_rect 16 16 32 5.76 = 1"
proof -
  have c: "(5.76, 5.76) \<in> set (corner_centers 32 5.76)" by (simp add: corner_centers_def)
  have q: "corner_square 32 1 2 (5.76, 5.76)" by (simp add: corner_square_def)
  have n: "\<forall>c \<in> set (corner_centers 32 5.76). \<not> corner_square 32 16 16 c"
    by (simp add: corner_centers_def corner_square_def)
  have h: "(0::int) < 32" "(0::real) < 5.76" "(5.76::real) < of_int 32 / 2" by simp_all
  have cs: "corner_centers 32 5.76 = [(5.76, 5.76), (26.24, 5.76), (5.76, 26.24), (26.24, 26.24)]"
    by (simp add: corner_centers_def)
  have "aa_rounded_rect 1 2 32 5.76 = falloff 5.76 (dist_to 1 2 (5.76, 5.76))"
       "aa_rounded_rect 16 16 32 5.76 = 1"
    using rounded_rect_corner_squares [OF h, of 1 2] rounded_rect_corner_squares [OF h, of 16 16] c q n
    by blast+
  then show ?thesis
    using c q n h unfolding cs by simp
qed

text \<open>
  With the quadrant of the claim (nearer to the corner's center than to the center of the
  rectangle along both axes) the statement fails: pixel \<open>(20, 0)\<close> of a rectangle of size
  100 and radius 18 is in that quadrant of the corner \<open>(18, 18)\<close>, the falloff there is
  below one half, and the coverage is 1.
\<close>

theorem nearer_quadrant_not_falloff:
  "(0::int) < 100 \<and> (0::real) < 18 \<and> (18::real) < of_int 100 / 2 \<and>
   (18, 18) \<in> set (corner_centers 100 18) \<and>
   nearer_quadrant 100 20 0 (18, 18) \<and>
   aa_rounded_rect 20 0 100 18 = 1 \<and>
   falloff 18 (dist_to 20 0 (18, 18)) < 1 / 2 \<and>
   aa_rounded_rect 20 0 100 18 \<noteq> falloff 18 (dist_to 20 0 (18, 18))"
proof -
  have rr: "aa_rounded_rect 20 0 100 18 = 1"
    by (simp add: aa_rounded_rect_def Let_def)
  have d: "dist_to 20 0 (18, 18) = sqrt 328"
    by (simp add: dist_to_def)
  have lo: "18 < sqrt 328" by (rule real_less_rsqrt) simp
  have hi: "sqrt 328 < 18.7" by (rule real_less_lsqrt) (simp_all add: power2_eq_square)
  have f: "falloff 18 (dist_to 20 0 (18, 18)) < 1 / 2"
    unfolding d using lo hi by (simp add: falloff_def)
  show ?thesis
    using f unfolding rr by (simp add: corner_centers_def nearer_quadrant_def)
qed

subsection \<open>The falloff band\<close>




subsection \<open>The PNG byte stream\<close>

text \<open>
  C5. For every width and height above 0 and every pixel sequence of length
  \<open>width * height\<close>, the byte stream that \<open>make_png\<close> returns starts with the eight bytes of
  the PNG signature and then consists of exactly three chunks, IHDR, IDAT and IEND in this
  order, each framed as four bytes of big-endian data length, four bytes of type, the
  data, and four bytes of big-endian CRC-32 over type and data: the stream is the
  signature followed by three such frames, and reading it back chunk by chunk, checking
  every CRC by recomputation, gives these three chunks and nothing else. The encoder
  does return a stream when width and height fit 32 bits, the channels are bytes and the
  compressed data is shorter than \<open>2\<^sup>3\<^sup>2\<close> bytes.
\<close>

theorem make_png_three_chunks:
  assumes "0 < width" "0 < height" "length pixels = nat (width * height)"
  shows "(\<forall>bs. make_png compress width height pixels = Inr bs \<longrightarrow>
            take 8 bs = [0x89, 0x50, 0x4E, 0x47, 0x0D, 0x0A, 0x1A, 0x0A] \<and>
            (\<exists>ihdr idat. bs = sig @ frame IHDR ihdr @ frame IDAT idat @ frame IEND [] \<and>
               read_chunks (drop 8 bs) = Some [(IHDR, ihdr), (IDAT, idat), (IEND, [])])) \<and>
         (width < 2 ^ 32 \<and> height < 2 ^ 32 \<and> (\<forall>p \<in> set pixels. pixel_ok p) \<and>
          (\<forall>raw. length (compress raw) < 2 ^ 32) \<longrightarrow>
            (\<exists>bs. make_png compress width height pixels = Inr bs))"
proof (intro conjI allI impI)
  fix bs assume "make_png compress width height pixels = Inr bs"
  from make_png_Inr [OF this] obtain raw where
    raw: "length (compress raw) < 2 ^ 32" and
    bs: "bs = sig @ frame IHDR (be32 (nat width) @ be32 (nat height) @ [8, 6, 0, 0, 0]) @
              frame IDAT (compress raw) @ frame IEND []"
    by blast
  let ?ihdr = "be32 (nat width) @ be32 (nat height) @ [8, 6, 0, 0, 0]"
  have l: "length ?ihdr < 2 ^ 32" by (simp add: length_be32)
  show "take 8 bs = [0x89, 0x50, 0x4E, 0x47, 0x0D, 0x0A, 0x1A, 0x0A]"
    by (simp add: bs sig_def)
  have "read_chunks (drop 8 bs) = Some [(IHDR, ?ihdr), (IDAT, compress raw), (IEND, [])]"
    using read_three_frames [OF l raw] by (simp add: bs sig_def)
  with bs show "\<exists>ihdr idat. bs = sig @ frame IHDR ihdr @ frame IDAT idat @ frame IEND [] \<and>
               read_chunks (drop 8 bs) = Some [(IHDR, ihdr), (IDAT, idat), (IEND, [])]"
    by blast
next
  assume "width < 2 ^ 32 \<and> height < 2 ^ 32 \<and> (\<forall>p \<in> set pixels. pixel_ok p) \<and>
          (\<forall>raw. length (compress raw) < 2 ^ 32)"
  then show "\<exists>bs. make_png compress width height pixels = Inr bs"
    using make_png_total [of width height pixels compress] assms by simp
qed

theorem make_png_three_chunks_witness:
  "(0::int) < 1 \<and> length [(0x10, 0xB9, 0x81, 255 :: int)] = nat (1 * 1) \<and>
   make_png (\<lambda>raw. raw) 1 1 [(0x10, 0xB9, 0x81, 255)] =
     Inr (sig @ frame IHDR [0, 0, 0, 1, 0, 0, 0, 1, 8, 6, 0, 0, 0] @
          frame IDAT [0, 0x10, 0xB9, 0x81, 0xFF] @ frame IEND []) \<and>
   read_chunks (drop 8 (sig @ frame IHDR [0, 0, 0, 1, 0, 0, 0, 1, 8, 6, 0, 0, 0] @
          frame IDAT [0, 0x10, 0xB9, 0x81, 0xFF] @ frame IEND [])) =
     Some [(IHDR, [0, 0, 0, 1, 0, 0, 0, 1, 8, 6, 0, 0, 0]), (IDAT, [0, 0x10, 0xB9, 0x81, 0xFF]), (IEND, [])] \<and>
   frame IEND [] = [0, 0, 0, 0, 0x49, 0x45, 0x4E, 0x44, 0xAE, 0x42, 0x60, 0x82]"
proof -
  let ?bs = "sig @ frame IHDR [0, 0, 0, 1, 0, 0, 0, 1, 8, 6, 0, 0, 0] @
          frame IDAT [0, 0x10, 0xB9, 0x81, 0xFF] @ frame IEND []"
  have h: "(0::int) < 1" "length [(0x10, 0xB9, 0x81, 255 :: int)] = nat (1 * 1)" by simp_all
  from make_png_three_chunks [OF h(1) h(1) h(2), of "\<lambda>raw. raw"] make_png_1x1
  obtain ihdr idat where
    e: "?bs = sig @ frame IHDR ihdr @ frame IDAT idat @ frame IEND []" and
    r: "read_chunks (drop 8 ?bs) = Some [(IHDR, ihdr), (IDAT, idat), (IEND, [])]"
    by blast
  have "read_chunks (drop 8 ?bs) =
     Some [(IHDR, [0, 0, 0, 1, 0, 0, 0, 1, 8, 6, 0, 0, 0]), (IDAT, [0, 0x10, 0xB9, 0x81, 0xFF]), (IEND, [])]"
    using read_three_frames [of "[0, 0, 0, 1, 0, 0, 0, 1, 8, 6, 0, 0, 0]" "[0, 0x10, 0xB9, 0x81, 0xFF]"]
    by (simp add: sig_def)
  then show ?thesis
    using make_png_1x1 frame_IEND r by simp
qed

subsection \<open>The canvas is made of bytes\<close>

text \<open>
  C10. For every \<open>sz > 0\<close> all four channels of every pixel of \<open>draw_icon sz\<close> are integers
  between 0 and 255, and so the loop of \<open>make_png\<close> that packs the pixels of such a canvas
  raises no error: it returns the scanline buffer.
\<close>

theorem draw_icon_channels_are_bytes:
  assumes "0 < sz"
  shows "(\<forall>p \<in> set (draw_icon sz). pixel_ok p) \<and>
         raw_rows (draw_icon sz) sz [0..sz - 1] [] = Inr (scanlines (draw_icon sz) sz [0..sz - 1])"
proof -
  have "length (draw_icon sz) = nat (sz * sz)"
    using assms by (simp add: length_draw_icon nat_mult_distrib)
  then show ?thesis
    using raw_rows_canvas [OF draw_icon_pixels_ok] draw_icon_pixels_ok by blast
qed

theorem draw_icon_channels_are_bytes_witness:
  "(0::int) < 32 \<and> (0, 0, 0, 0) \<in> set (draw_icon 32) \<and> pixel_ok (0, 0, 0, 0) \<and>
   raw_rows (draw_icon 32) 32 [0..32 - 1] [] = Inr (scanlines (draw_icon 32) 32 [0..32 - 1])"
proof -
  have "draw_icon 32 ! nat (0 * 32 + 0) = icon_pixel 32 0 0"
    by (intro draw_icon_nth) simp_all
  then have "draw_icon 32 ! 0 = (0, 0, 0, 0)"
    using corner_pixel_outside [of 32] by (simp add: icon_pixel_def Let_def)
  moreover have "0 < length (draw_icon 32)" by (simp add: length_draw_icon)
  ultimately have m: "(0, 0, 0, 0) \<in> set (draw_icon 32)"
    using nth_mem by metis
  show ?thesis
    using draw_icon_channels_are_bytes [of 32] m by simp
qed

subsection \<open>The favicon\<close>

text \<open>
  C7. The bytes of \<open>favicon.ico\<close> are the six-byte header (reserved 0, type 1, count 1, each
  a little-endian 16-bit field), then one directory entry of sixteen bytes (width 32,
  height 32, two single bytes 0 and 0, the 16-bit fields 1 and 32, the 32-bit length of
  the embedded PNG and the 32-bit offset 22), then the PNG stream of the 32-pixel icon
  unchanged; the total length is \<open>6 + 16\<close> plus the length of the PNG. The file is
  produced whenever the compressed data is shorter than \<open>2\<^sup>3\<^sup>1\<close> bytes.
\<close>

theorem favicon_ico_layout:
  "(\<forall>bs. favicon_ico compress = Inr bs \<longrightarrow>
      (\<exists>png. make_png compress 32 32 (draw_icon 32) = Inr png \<and>
         bs = [0, 0, 1, 0, 1, 0] @ [32, 32, 0, 0, 1, 0, 32, 0] @ le32 (length png) @ [22, 0, 0, 0] @ png \<and>
         length bs = 6 + 16 + length png)) \<and>
   ((\<forall>raw. length (compress raw) < 2 ^ 31) \<longrightarrow> (\<exists>bs. favicon_ico compress = Inr bs))"
proof (intro conjI allI impI)
  fix bs assume "favicon_ico compress = Inr bs"
  then obtain png where png: "make_png compress 32 32 (draw_icon 32) = Inr png"
    and bs: "bs = [0, 0, 1, 0, 1, 0] @ [32, 32, 0, 0, 1, 0, 32, 0] @ le32 (length png) @ [22, 0, 0, 0] @ png"
    unfolding favicon_ico_def Let_def pack_ico_header pack_ico_entry and_then_def
    by (auto split: sum.splits if_splits)
  have "length bs = 6 + 16 + length png" by (simp add: bs le32_def)
  with png bs show "\<exists>png. make_png compress 32 32 (draw_icon 32) = Inr png \<and>
         bs = [0, 0, 1, 0, 1, 0] @ [32, 32, 0, 0, 1, 0, 32, 0] @ le32 (length png) @ [22, 0, 0, 0] @ png \<and>
         length bs = 6 + 16 + length png"
    by blast
next
  assume c: "\<forall>raw. length (compress raw) < 2 ^ 31"
  then have c32: "\<forall>raw. length (compress raw) < 2 ^ 32"
    by (auto intro: less_trans)
  let ?png = "sig @ frame IHDR (be32 (nat 32) @ be32 (nat 32) @ [8, 6, 0, 0, 0]) @
              frame IDAT (compress (scanlines (draw_icon 32) 32 [0..32 - 1])) @ frame IEND []"
  have png: "make_png compress 32 32 (draw_icon 32) = Inr ?png"
    using c32 by (intro make_png_total draw_icon_pixels_ok) (simp_all add: length_draw_icon)
  have "length ?png = 57 + length (compress (scanlines (draw_icon 32) 32 [0..32 - 1]))"
    by (simp add: length_frame length_be32 sig_def IHDR_def IDAT_def IEND_def)
  moreover have "length (compress (scanlines (draw_icon 32) 32 [0..32 - 1])) < 2 ^ 31"
    using c by blast
  ultimately have "length ?png < 2 ^ 32" by simp
  then show "\<exists>bs. favicon_ico compress = Inr bs"
    unfolding favicon_ico_def Let_def png pack_ico_header pack_ico_entry and_then_def
    by simp
qed

theorem favicon_ico_layout_witness:
  "(\<forall>raw :: byte list. length ([] :: byte list) < 2 ^ 31) \<and>
   (\<exists>bs png. favicon_ico (\<lambda>raw. []) = Inr bs \<and>
      make_png (\<lambda>raw. []) 32 32 (draw_icon 32) = Inr png \<and> length png = 57 \<and>
      take 22 bs = [0, 0, 1, 0, 1, 0, 32, 32, 0, 0, 1, 0, 32, 0, 57, 0, 0, 0, 22, 0, 0, 0] \<and>
      drop 22 bs = png \<and> length bs = 79)"
proof -
  let ?c = "\<lambda>raw :: byte list. [] :: byte list"
  have c: "\<forall>raw. length (?c raw) < 2 ^ 31" by simp
  from favicon_ico_layout [of ?c] c obtain bs where bs: "favicon_ico ?c = Inr bs" by blast
  with favicon_ico_layout [of ?c] obtain png where
    png: "make_png ?c 32 32 (draw_icon 32) = Inr png" and
    lay: "bs = [0, 0, 1, 0, 1, 0] @ [32, 32, 0, 0, 1, 0, 32, 0] @ le32 (length png) @ [22, 0, 0, 0] @ png"
    by blast
  have "make_png ?c 32 32 (draw_icon 32) =
        Inr (sig @ frame IHDR (be32 (nat 32) @ be32 (nat 32) @ [8, 6, 0, 0, 0]) @
              frame IDAT (?c (scanlines (draw_icon 32) 32 [0..32 - 1])) @ frame IEND [])"
    by (intro make_png_total draw_icon_pixels_ok) (simp_all add: length_draw_icon)
  with png have l: "length png = 57"
    by (auto simp: length_frame length_be32 sig_def IHDR_def IDAT_def IEND_def)
  have "le32 57 = [57, 0, 0, 0]" by (simp add: le32_def)
  with lay l have "take 22 bs = [0, 0, 1, 0, 1, 0, 32, 32, 0, 0, 1, 0, 32, 0, 57, 0, 0, 0, 22, 0, 0, 0]"
    "drop 22 bs = png" "length bs = 79"
    by simp_all
  with bs png l show ?thesis
    by (intro conjI exI [of _ bs] exI [of _ png]) simp_all
qed

end
